theory Spec2Isabelle
  imports Main
begin

section \<open>Python values: exceptions, dictionaries, indexing\<close>

text \<open>
  The exceptions the modelled functions can raise. A raise is the value \<open>Inl e\<close> of the
  result type \<open>error + 'a\<close>; a normal return is \<open>Inr v\<close>.
\<close>

datatype error = ValueError | KeyError | IndexError | AssertionError

text \<open>
  A dictionary literal is an association list; \<open>d[k]\<close> raises \<open>KeyError\<close> on a missing key.
\<close>

definition dict_get :: "('k \<times> 'v) list \<Rightarrow> 'k \<Rightarrow> error + 'v" where
  "dict_get d k = (case map_of d k of None \<Rightarrow> Inl KeyError | Some v \<Rightarrow> Inr v)"

text \<open>Indexing a sequence with a non-negative index: \<open>IndexError\<close> out of range.\<close>

definition list_get :: "'a list \<Rightarrow> nat \<Rightarrow> error + 'a" where
  "list_get xs i = (if i < length xs then Inr (xs ! i) else Inl IndexError)"

text \<open>
  \<open>np.cumsum\<close> of a list of Python integers: the running sums, one per element. numpy
  holds the list as 64-bit signed integers and its sums wrap around; a list with an
  entry outside that range is not an integer array at all. The model sums in unbounded
  integers, so it is the function of the program exactly when every entry and every
  running sum lies between \<open>- 2 ^ 63\<close> and \<open>2 ^ 63 - 1\<close>. The theorems on the program
  that leave the first entry open carry that range as a hypothesis; the other entries
  are the constants of the interval tables.
\<close>

fun cumsum_acc :: "int \<Rightarrow> int list \<Rightarrow> int list" where
  "cumsum_acc a [] = []"
| "cumsum_acc a (x # xs) = (a + x) # cumsum_acc (a + x) xs"

definition cumsum :: "int list \<Rightarrow> int list" where
  "cumsum xs = cumsum_acc 0 xs"

section \<open>source/constants.py\<close>

definition STEP_SIZE :: nat where
  "STEP_SIZE = 32"

definition WINDOW_SIZE :: nat where
  "WINDOW_SIZE = 256"


definition ALL_TASKS :: "string list" where
  "ALL_TASKS =
    [''local_key'', ''secondary_degree'', ''primary_degree'',
     ''quality'', ''inversion'', ''root_pitch_class'', ''bass_pitch_class'',
     ''tonicized_pitch_class'', ''simple_rn'']"

definition MODE_INTERVALS :: "(string \<times> int list) list" where
  "MODE_INTERVALS =
    [(''major'', [2, 2, 1, 2, 2, 2]),
     (''minor'', [2, 1, 2, 2, 1, 2]),
     (''dorian'', [2, 1, 2, 2, 2, 1]),
     (''phrygian'', [1, 2, 2, 2, 1, 2]),
     (''lydian'', [2, 2, 2, 1, 2, 2]),
     (''mixolydian'', [2, 2, 1, 2, 2, 1]),
     (''locrian'', [1, 2, 2, 1, 2, 2]),
     (''harmonicMinor'', [2, 1, 2, 2, 1, 3]),
     (''phrygianDominant'', [1, 3, 1, 2, 1, 2])]"

definition QUALITY_INTERVALS :: "(string \<times> int list) list" where
  "QUALITY_INTERVALS =
    [(''D7'', [4, 3, 3]), (''M'', [4, 3]), (''M7'', [4, 3, 4]), (''a'', [4, 4]),
     (''a7'', [4, 4, 2]), (''aM7'', [4, 4, 3]), (''d'', [3, 3]), (''d7'', [3, 3, 3]),
     (''h7'', [3, 3, 4]), (''m'', [3, 4]), (''m7'', [3, 4, 3]), (''mM7'', [3, 4, 4]),
     (''oM7'', [3, 3, 5])]"

definition ACCIDENTAL_MAP :: "(string \<times> int) list" where
  "ACCIDENTAL_MAP = [(''bb'', - 2), (''b'', - 1), ('''', 0), (''#'', 1), (''##'', 2)]"

definition DEGREE_MAP :: "(string \<times> nat) list" where
  "DEGREE_MAP =
    [(''I'', 0), (''II'', 1), (''III'', 2), (''IV'', 3), (''V'', 4), (''VI'', 5), (''VII'', 6)]"

section \<open>source/theory/rns.py: scales\<close>

text \<open>
  \<open>get_scale_pcs(tonic_pc, mode) = np.cumsum([tonic_pc] + MODE_INTERVALS[mode]) % 12\<close>.
  The remainder of numpy integers takes the sign of the divisor, as \<open>mod\<close> on \<open>int\<close> does.
  The six steps of a mode add up to at most 11, so the running sums stay in the 64-bit
  range, and the model is exact, for \<open>- 2 ^ 63 \<le> tonic_pc\<close> and \<open>tonic_pc + 11 < 2 ^ 63\<close>.
\<close>

definition get_scale_pcs :: "int \<Rightarrow> string \<Rightarrow> error + int list" where
  "get_scale_pcs tonic_pc mode =
     (case dict_get MODE_INTERVALS mode of
        Inl e \<Rightarrow> Inl e
      | Inr ivs \<Rightarrow> Inr (map (\<lambda>x. x mod 12) (cumsum (tonic_pc # ivs))))"

section \<open>Python string operations\<close>

text \<open>
  A Python \<open>str\<close> is modelled by the bytes of its UTF-8 encoding, so an ASCII character
  is one \<open>char\<close> and any other character is two to four \<open>char\<close>s above \<open>0x7F\<close>.

  \<open>str.split()\<close> with no argument splits at runs of whitespace and drops empty pieces.
  Whitespace is what \<open>str.isspace\<close> accepts: the ASCII characters \<open>0x09\<close> to \<open>0x0D\<close>,
  \<open>0x1C\<close> to \<open>0x1F\<close> and \<open>0x20\<close>, and the characters U+0085, U+00A0, U+1680, U+2000 to
  U+200A, U+2028, U+2029, U+202F, U+205F and U+3000, here as their encodings.
  \<open>space_width s\<close> is the number of bytes of the whitespace character \<open>s\<close> starts with,
  and \<open>0\<close> when it starts with none.
\<close>

definition ascii_space :: "char \<Rightarrow> bool" where
  "ascii_space c =
     (c \<in> set [CHR '' '', CHR 0x09, CHR 0x0A, CHR 0x0B, CHR 0x0C, CHR 0x0D,
                CHR 0x1C, CHR 0x1D, CHR 0x1E, CHR 0x1F])"

definition two_byte_spaces :: "string list" where
  "two_byte_spaces = [[CHR 0xC2, CHR 0x85], [CHR 0xC2, CHR 0xA0]]"

definition three_byte_spaces :: "string list" where
  "three_byte_spaces =
     [[CHR 0xE1, CHR 0x9A, CHR 0x80],
      [CHR 0xE2, CHR 0x80, CHR 0x80], [CHR 0xE2, CHR 0x80, CHR 0x81],
      [CHR 0xE2, CHR 0x80, CHR 0x82], [CHR 0xE2, CHR 0x80, CHR 0x83],
      [CHR 0xE2, CHR 0x80, CHR 0x84], [CHR 0xE2, CHR 0x80, CHR 0x85],
      [CHR 0xE2, CHR 0x80, CHR 0x86], [CHR 0xE2, CHR 0x80, CHR 0x87],
      [CHR 0xE2, CHR 0x80, CHR 0x88], [CHR 0xE2, CHR 0x80, CHR 0x89],
      [CHR 0xE2, CHR 0x80, CHR 0x8A],
      [CHR 0xE2, CHR 0x80, CHR 0xA8], [CHR 0xE2, CHR 0x80, CHR 0xA9],
      [CHR 0xE2, CHR 0x80, CHR 0xAF], [CHR 0xE2, CHR 0x81, CHR 0x9F],
      [CHR 0xE3, CHR 0x80, CHR 0x80]]"

definition space_width :: "string \<Rightarrow> nat" where
  "space_width s =
     (case s of
        [] \<Rightarrow> 0
      | c # _ \<Rightarrow>
          if ascii_space c then 1
          else if take 2 s \<in> set two_byte_spaces then 2
          else if take 3 s \<in> set three_byte_spaces then 3
          else 0)"

text \<open>
  \<open>split_ws_acc skip cur s\<close> walks the string: \<open>skip\<close> counts the bytes still to drop of
  a whitespace character already seen, \<open>cur\<close> is the piece being collected.
\<close>

fun split_ws_acc :: "nat \<Rightarrow> string \<Rightarrow> string \<Rightarrow> string list" where
  "split_ws_acc skip cur [] = (if cur = [] then [] else [cur])"
| "split_ws_acc skip cur (c # cs) =
     (if 0 < skip then split_ws_acc (skip - 1) cur cs
      else if 0 < space_width (c # cs)
      then (if cur = [] then [] else [cur]) @ split_ws_acc (space_width (c # cs) - 1) [] cs
      else split_ws_acc 0 (cur @ [c]) cs)"

definition split_ws :: "string \<Rightarrow> string list" where
  "split_ws s = split_ws_acc 0 [] s"

text \<open>\<open>s.split(sep)\<close> for a one-character separator: always at least one piece.\<close>

fun split_on :: "char \<Rightarrow> string \<Rightarrow> string list" where
  "split_on sep [] = [[]]"
| "split_on sep (c # cs) =
     (if c = sep then [] # split_on sep cs
      else (case split_on sep cs of
              [] \<Rightarrow> [[c]]
            | p # ps \<Rightarrow> (c # p) # ps))"

text \<open>\<open>rn.replace('/o', '^o')\<close>: every occurrence, left to right, without overlap.\<close>

fun replace_slash_o :: "string \<Rightarrow> string" where
  "replace_slash_o (a # b # cs) =
     (if a = CHR ''/'' \<and> b = CHR ''o''
      then CHR ''^'' # CHR ''o'' # replace_slash_o cs
      else a # replace_slash_o (b # cs))"
| "replace_slash_o cs = cs"

text \<open>
  \<open>str.upper\<close> and \<open>str.isupper\<close> on strings of ASCII characters. The program applies
  both to the degree group of \<open>parse_rn\<close> only, which holds one to three of the letters
  \<open>I\<close>, \<open>V\<close>, \<open>i\<close>, \<open>v\<close>.
\<close>

definition lower_letters :: string where
  "lower_letters = ''abcdefghijklmnopqrstuvwxyz''"

definition upper_letters :: string where
  "upper_letters = ''ABCDEFGHIJKLMNOPQRSTUVWXYZ''"

definition upper_char :: "char \<Rightarrow> char" where
  "upper_char c = (case map_of (zip lower_letters upper_letters) c of None \<Rightarrow> c | Some u \<Rightarrow> u)"

definition py_upper :: "string \<Rightarrow> string" where
  "py_upper s = map upper_char s"

definition py_isupper :: "string \<Rightarrow> bool" where
  "py_isupper s =
     (list_ex (\<lambda>c. c \<in> set upper_letters) s \<and> list_all (\<lambda>c. c \<notin> set lower_letters) s)"

text \<open>\<open>str\<close> of an integer, and \<open>sep.join\<close>.\<close>

definition digit_char :: "nat \<Rightarrow> char" where
  "digit_char d = ''0123456789'' ! d"

fun str_nat :: "nat \<Rightarrow> string" where
  "str_nat n = (if n < 10 then [digit_char n] else str_nat (n div 10) @ [digit_char (n mod 10)])"

declare str_nat.simps [simp del]

definition str_int :: "int \<Rightarrow> string" where
  "str_int i = (if i < 0 then CHR ''-'' # str_nat (nat (- i)) else str_nat (nat i))"

fun join :: "string \<Rightarrow> string list \<Rightarrow> string" where
  "join sep [] = []"
| "join sep [x] = x"
| "join sep (x # y # ys) = x @ sep @ join sep (y # ys)"

section \<open>source/theory/rns.py: Roman-numeral tokens\<close>

text \<open>
  \<open>parse_rn\<close> matches the pattern \<^verbatim>\<open>^([#b]?)([IViv]{1,3})(.*)$\<close> with \<open>re.match\<close>.
  The model follows the matcher's search order. The accidental group takes one
  character \<open>#\<close> or \<open>b\<close> when there is one and otherwise nothing; the degree group
  tries three, then two, then one character of \<open>IViv\<close>; the extension group takes
  every character up to a line break, and \<open>$\<close> then needs the end of the string or one
  final line break. The first alternative that matches gives the three groups.
\<close>

definition is_accidental_char :: "char \<Rightarrow> bool" where
  "is_accidental_char c = (c = CHR ''#'' \<or> c = CHR ''b'')"

definition is_degree_char :: "char \<Rightarrow> bool" where
  "is_degree_char c = (c = CHR ''I'' \<or> c = CHR ''V'' \<or> c = CHR ''i'' \<or> c = CHR ''v'')"

definition match_extension :: "string \<Rightarrow> string option" where
  "match_extension s =
     (let ext = takeWhile (\<lambda>c. c \<noteq> CHR 0x0A) s;
          rest = dropWhile (\<lambda>c. c \<noteq> CHR 0x0A) s
      in if rest = [] \<or> rest = [CHR 0x0A] then Some ext else None)"

fun match_degree :: "nat list \<Rightarrow> string \<Rightarrow> (string \<times> string) option" where
  "match_degree [] s = None"
| "match_degree (k # ks) s =
     (if k \<le> length s \<and> list_all is_degree_char (take k s)
      then (case match_extension (drop k s) of
              Some ext \<Rightarrow> Some (take k s, ext)
            | None \<Rightarrow> match_degree ks s)
      else match_degree ks s)"

text \<open>The repetition counts the quantifier \<open>{1,3}\<close> tries, the greedy one first.\<close>

definition degree_repeats :: "nat list" where
  "degree_repeats = [3, 2, 1]"

definition parse_rn :: "string \<Rightarrow> error + string \<times> string \<times> string" where
  "parse_rn rn =
     (case (case rn of
              [] \<Rightarrow> None
            | c # cs \<Rightarrow>
                if is_accidental_char c
                then map_option (\<lambda>(degree, extension). ([c], degree, extension))
                       (match_degree degree_repeats cs)
                else None) of
        Some groups \<Rightarrow> Inr groups
      | None \<Rightarrow>
          (case match_degree degree_repeats rn of
             Some (degree, extension) \<Rightarrow> Inr ([], degree, extension)
           | None \<Rightarrow> Inl ValueError))"

definition major_map :: "(string \<times> string) list" where
  "major_map =
     [(''7'', ''D7''), (''maj7'', ''M7''), (''+'', ''a''), (''+7'', ''a7''),
      (''+maj7'', ''aM7''), ('''', ''M'')]"

definition minor_map :: "(string \<times> string) list" where
  "minor_map =
     [(''o'', ''d''), (''o7'', ''d7''), (''^o7'', ''h7''), (''7'', ''m7''),
      (''maj7'', ''mM7''), (''omaj7'', ''oM7''), ('''', ''m'')]"

definition get_chord_quality :: "string \<Rightarrow> string \<Rightarrow> error + string" where
  "get_chord_quality degree extension =
     (if py_isupper degree then dict_get major_map extension
      else dict_get minor_map extension)"

text \<open>
  \<open>get_rn_pitch_classes(rn, scale)\<close>, in the order of its statements. The helper
  \<open>get_note_pc\<close> of \<open>source/utils\<close> is not among the sources: it is the parameter
  \<open>note_pc\<close>, which may raise.

  \<open>secondary_key_scale\<close> is the block under \<open>if second:\<close>, which is skipped for \<open>None\<close>
  and for the empty string: the target is parsed, its pitch class is the key scale's
  entry at its degree plus its accidental offset, and the key scale becomes the major
  scale on that pitch class.
\<close>

definition secondary_key_scale :: "int list \<Rightarrow> string option \<Rightarrow> error + int list" where
  "secondary_key_scale key_scale second =
     (case second of
        None \<Rightarrow> Inr key_scale
      | Some s \<Rightarrow>
          if s = [] then Inr key_scale
          else
            (case parse_rn s of Inl e \<Rightarrow> Inl e | Inr (accidental, degree, _) \<Rightarrow>
            (case dict_get DEGREE_MAP (py_upper degree) of Inl e \<Rightarrow> Inl e | Inr d \<Rightarrow>
            (case list_get key_scale d of Inl e \<Rightarrow> Inl e | Inr pc \<Rightarrow>
            (case dict_get ACCIDENTAL_MAP accidental of Inl e \<Rightarrow> Inl e | Inr a \<Rightarrow>
               get_scale_pcs (pc + a) ''major'')))))"

text \<open>
  \<open>chord_pitch_classes\<close> is the rest of the function, from \<open>parse_rn(first)\<close> to the array
  \<open>pitch_classes\<close>: the root is the key scale's entry at the degree plus the accidental
  offset, and the pitch classes are the running sums of the root and the quality's
  intervals, modulo 12.
\<close>

definition chord_pitch_classes :: "int list \<Rightarrow> string \<Rightarrow> error + int list" where
  "chord_pitch_classes key_scale first =
     (case parse_rn first of Inl e \<Rightarrow> Inl e | Inr (accidental, degree, extension) \<Rightarrow>
     (case dict_get DEGREE_MAP (py_upper degree) of Inl e \<Rightarrow> Inl e | Inr d \<Rightarrow>
     (case list_get key_scale d of Inl e \<Rightarrow> Inl e | Inr pc \<Rightarrow>
     (case dict_get ACCIDENTAL_MAP accidental of Inl e \<Rightarrow> Inl e | Inr a \<Rightarrow>
     (case get_chord_quality degree extension of Inl e \<Rightarrow> Inl e | Inr q \<Rightarrow>
     (case dict_get QUALITY_INTERVALS q of Inl e \<Rightarrow> Inl e | Inr intervals \<Rightarrow>
        Inr (map (\<lambda>x. x mod 12) (cumsum ((pc + a) # intervals)))))))))"

text \<open>
  \<open>resolve_parts\<close> takes \<open>parts = rn.split('/')\<close>: \<open>first = parts[0]\<close>, and \<open>second\<close> is
  \<open>parts[1]\<close> when there are exactly two parts and \<open>None\<close> otherwise.
\<close>

definition resolve_parts :: "int list \<Rightarrow> string list \<Rightarrow> error + int list" where
  "resolve_parts key_scale parts =
     (let first = hd parts;
          second = (if length parts = 2 then Some (parts ! 1) else None)
      in case secondary_key_scale key_scale second of
           Inl e \<Rightarrow> Inl e
         | Inr key_scale' \<Rightarrow> chord_pitch_classes key_scale' first)"

text \<open>
  \<open>rn_pitch_classes\<close> is the value of the local array \<open>pitch_classes\<close>, and
  \<open>get_rn_pitch_classes\<close> the returned string, its entries joined by \<open>-\<close>.
\<close>

definition rn_pitch_classes ::
  "(string \<Rightarrow> error + int) \<Rightarrow> string \<Rightarrow> string \<Rightarrow> error + int list" where
  "rn_pitch_classes note_pc rn scale =
     (case split_ws scale of
        [tonic, mode] \<Rightarrow>
          (case note_pc tonic of Inl e \<Rightarrow> Inl e | Inr tonic_pc \<Rightarrow>
          (case get_scale_pcs tonic_pc mode of Inl e \<Rightarrow> Inl e | Inr key_scale \<Rightarrow>
             resolve_parts key_scale (split_on CHR ''/'' (replace_slash_o rn))))
      | _ \<Rightarrow> Inl ValueError)"

definition get_rn_pitch_classes ::
  "(string \<Rightarrow> error + int) \<Rightarrow> string \<Rightarrow> string \<Rightarrow> error + string" where
  "get_rn_pitch_classes note_pc rn scale =
     (case rn_pitch_classes note_pc rn scale of
        Inl e \<Rightarrow> Inl e
      | Inr pitch_classes \<Rightarrow> Inr (join ''-'' (map str_int pitch_classes)))"

text \<open>
  \<open>get_note_pc\<close> being the parameter \<open>note_pc\<close>, a statement at a concrete key needs an
  instance of it. \<open>chromatic_pc\<close> is that instance: the place of the note name in
  \<open>CHROMATIC_SCALE\<close> of constants.py, so that \<open>C\<close> has the pitch class 0, as the docstring
  example \<open>get_rn_pitch_classes('I', 'C major') --> '0-4-7'\<close> needs it, and \<open>ValueError\<close>
  for any other name.
\<close>

definition CHROMATIC_SCALE :: "string list" where
  "CHROMATIC_SCALE =
     [''C'', ''C#'', ''D'', ''D#'', ''E'', ''F'', ''F#'', ''G'', ''G#'', ''A'', ''A#'', ''B'']"

fun index_of :: "'a \<Rightarrow> 'a list \<Rightarrow> nat option" where
  "index_of x [] = None"
| "index_of x (y # ys) = (if x = y then Some 0 else map_option Suc (index_of x ys))"

definition chromatic_pc :: "string \<Rightarrow> error + int" where
  "chromatic_pc name =
     (case index_of name CHROMATIC_SCALE of None \<Rightarrow> Inl ValueError | Some i \<Rightarrow> Inr (int i))"

section \<open>Two-dimensional arrays\<close>

text \<open>
  A two-dimensional numpy array is the list of its rows, all of one length; the number
  of columns \<open>shape[1]\<close> is the length of the first row. An array without rows has no
  first row, so the model covers arrays with at least one row; the tables of the
  program have 9, 12 or 84 rows. The entries are never computed with by the windowing
  code, so their type is left open.
\<close>

definition ncols :: "'a list list \<Rightarrow> nat" where
  "ncols arr = (case arr of [] \<Rightarrow> 0 | r # _ \<Rightarrow> length r)"

definition is_table :: "nat \<Rightarrow> nat \<Rightarrow> 'a list list \<Rightarrow> bool" where
  "is_table nrows T arr = (length arr = nrows \<and> 1 \<le> nrows \<and> list_all (\<lambda>r. length r = T) arr)"

section \<open>skimage.util.view_as_windows on a two-dimensional array\<close>

text \<open>
  \<open>view_as_windows(arr_in, window_shape, step)\<close> with a window shape and a step of two
  entries each. It raises \<open>ValueError\<close> when the array is smaller than the window along
  an axis, when a window side is below 1, and when a step is 0. Otherwise it returns the
  four-dimensional array whose entry \<open>(i, j)\<close> is the window with its top left corner at
  row \<open>i * step[0]\<close> and column \<open>j * step[1]\<close>, for \<open>(shape - window_shape) // step + 1\<close>
  indices along each axis.
\<close>

definition window_at :: "'a list list \<Rightarrow> nat \<times> nat \<Rightarrow> nat \<times> nat \<Rightarrow> 'a list list" where
  "window_at arr corner window_shape =
     map (\<lambda>r. take (snd window_shape) (drop (snd corner) r))
       (take (fst window_shape) (drop (fst corner) arr))"

definition view_as_windows ::
  "'a list list \<Rightarrow> nat \<times> nat \<Rightarrow> nat \<times> nat \<Rightarrow> error + 'a list list list list" where
  "view_as_windows arr_in window_shape step =
     (if length arr_in < fst window_shape \<or> ncols arr_in < snd window_shape
      then Inl ValueError
      else if fst window_shape < 1 \<or> snd window_shape < 1 then Inl ValueError
      else if fst step = 0 \<or> snd step = 0 then Inl ValueError
      else Inr (map (\<lambda>i. map (\<lambda>j. window_at arr_in (i * fst step, j * snd step) window_shape)
                              [0 ..< (ncols arr_in - snd window_shape) div snd step + 1])
                    [0 ..< (length arr_in - fst window_shape) div fst step + 1]))"

text \<open>\<open>a.squeeze(0)\<close> drops the first axis, which must have length one.\<close>

definition squeeze0 :: "'a list \<Rightarrow> error + 'a" where
  "squeeze0 a = (case a of [x] \<Rightarrow> Inr x | _ \<Rightarrow> Inl ValueError)"

section \<open>theorytab/VAMP/extract_vamp_features.py: windows of a feature table\<close>

text \<open>
  \<open>chunkify_feature(feature, feature_size)\<close>: a table with fewer than \<open>WINDOW_SIZE\<close>
  columns is padded on the right with \<open>np.pad\<close>, whose default fills with zeros; then the
  windows of \<open>feature_size\<close> rows and \<open>WINDOW_SIZE\<close> columns are taken every \<open>STEP_SIZE\<close>
  columns.
\<close>

definition chunkify_feature :: "('a::zero) list list \<Rightarrow> nat \<Rightarrow> error + 'a list list list" where
  "chunkify_feature feature feature_size =
     (let feature' =
            (if ncols feature < WINDOW_SIZE
             then map (\<lambda>r. r @ replicate (WINDOW_SIZE - ncols feature) 0) feature
             else feature)
      in case view_as_windows feature' (feature_size, WINDOW_SIZE) (feature_size, STEP_SIZE) of
           Inl e \<Rightarrow> Inl e
         | Inr windows \<Rightarrow> squeeze0 windows)"

section \<open>theorytab/create_label_segments.py: windows of a label table\<close>

text \<open>
  The statement of \<open>main\<close> that cuts the label table of one entry into segments:
  \<open>view_as_windows(labels, (len(ALL_TASKS), WINDOW_SIZE), (len(ALL_TASKS), STEP_SIZE)).squeeze(0)\<close>.
  The table comes from \<open>encode_labels\<close> of \<open>source/utils\<close>, which is not among the sources;
  it is the argument \<open>labels\<close>, one row per task and one column per beat.
\<close>

definition label_segments :: "'a list list \<Rightarrow> error + 'a list list list" where
  "label_segments labels =
     (case view_as_windows labels (length ALL_TASKS, WINDOW_SIZE) (length ALL_TASKS, STEP_SIZE) of
        Inl e \<Rightarrow> Inl e
      | Inr windows \<Rightarrow> squeeze0 windows)"

section \<open>theorytab/VAMP/extract_vamp_features.py: resampling frames to beats\<close>

text \<open>
  \<open>feature[:, idx]\<close>: the column at an index, counted from the end when negative;
  \<open>IndexError\<close> outside \<open>- shape[1] \<le> idx < shape[1]\<close>.
\<close>

definition column :: "'a list list \<Rightarrow> int \<Rightarrow> error + 'a list" where
  "column feature idx =
     (let F = int (ncols feature)
      in if - F \<le> idx \<and> idx < F
         then Inr (map (\<lambda>r. r ! nat (if idx < 0 then idx + F else idx)) feature)
         else Inl IndexError)"

text \<open>
  \<open>r[start:stop]\<close>: a negative bound counts from the end, and both bounds are clipped to
  the length; the slice is empty when the bounds cross.
\<close>

definition slice_bound :: "nat \<Rightarrow> int \<Rightarrow> nat" where
  "slice_bound n v = (if v < 0 then nat (max 0 (v + int n)) else min (nat v) n)"

definition py_slice :: "'a list \<Rightarrow> int \<Rightarrow> int \<Rightarrow> 'a list" where
  "py_slice r start stop =
     take (slice_bound (length r) stop - slice_bound (length r) start)
       (drop (slice_bound (length r) start) r)"

text \<open>
  One pass of the loop of \<open>resample_feature\<close>, for the boundaries \<open>x = beats_to_frames[i]\<close>
  and \<open>y = beats_to_frames[i+1]\<close>. The frames hold floating-point numbers and \<open>np.mean\<close>
  averages them in floating point: \<open>mean\<close> stands for that function on the entries of one
  row of the slice, whatever it returns, also on an empty slice.
\<close>

definition resample_frame ::
  "('a list \<Rightarrow> 'a) \<Rightarrow> 'a list list \<Rightarrow> int \<Rightarrow> int \<Rightarrow> error + 'a list" where
  "resample_frame mean feature x y =
     (if x = y then column feature (min x (int (ncols feature) - 1))
      else Inr (map (\<lambda>r. mean (py_slice r x y)) feature))"

text \<open>The loop \<open>for i in range(num_beats)\<close>, over the pairs of neighbouring boundaries.\<close>

fun resample_frames ::
  "('a list \<Rightarrow> 'a) \<Rightarrow> 'a list list \<Rightarrow> int list \<Rightarrow> error + 'a list list" where
  "resample_frames mean feature (x # y # bs) =
     (case resample_frame mean feature x y of
        Inl e \<Rightarrow> Inl e
      | Inr frame \<Rightarrow>
          (case resample_frames mean feature (y # bs) of
             Inl e \<Rightarrow> Inl e
           | Inr frames \<Rightarrow> Inr (frame # frames)))"
| "resample_frames mean feature bs = Inr []"

text \<open>
  \<open>np.stack(frames, axis=1)\<close> makes the frames the columns of a table and raises
  \<open>ValueError\<close> on an empty list; the table's \<open>shape[1]\<close> is the number of frames.
\<close>

definition stack_columns :: "'a list list \<Rightarrow> error + 'a list list" where
  "stack_columns frames =
     (if frames = [] then Inl ValueError
      else Inr (map (\<lambda>c. map (\<lambda>frame. frame ! c) frames) [0 ..< length (hd frames)]))"

text \<open>
  \<open>resample_feature(feature, beats_to_frames, normalization)\<close>; \<open>normalization\<close> is
  \<open>None\<close> or a function on tables.
\<close>

definition resample_feature ::
  "('a list \<Rightarrow> 'a) \<Rightarrow> 'a list list \<Rightarrow> int list \<Rightarrow> ('a list list \<Rightarrow> 'a list list) option \<Rightarrow>
     error + 'a list list" where
  "resample_feature mean feature beats_to_frames normalization =
     (let num_beats = int (length beats_to_frames) - 1
      in case resample_frames mean feature beats_to_frames of
           Inl e \<Rightarrow> Inl e
         | Inr resampled_frames \<Rightarrow>
             (case stack_columns resampled_frames of
                Inl e \<Rightarrow> Inl e
              | Inr resampled_feature \<Rightarrow>
                  if int (length resampled_frames) \<noteq> num_beats then Inl AssertionError
                  else
                    (case normalization of
                       None \<Rightarrow> Inr resampled_feature
                     | Some f \<Rightarrow> Inr (f resampled_feature))))"

section \<open>Properties of the scale construction\<close>

lemma length_cumsum_acc: "length (cumsum_acc a xs) = length xs"
  by (induction xs arbitrary: a) simp_all

lemma nth_cumsum_acc:
  "i < length xs \<Longrightarrow> cumsum_acc a xs ! i = a + sum_list (take (Suc i) xs)"
proof (induction xs arbitrary: a i)
  case Nil
  then show ?case by simp
next
  case (Cons x xs)
  show ?case
  proof (cases i)
    case 0
    then show ?thesis by simp
  next
    case (Suc j)
    with Cons.prems have "j < length xs" by simp
    from Cons.IH [OF this, of "a + x"] Suc show ?thesis by simp
  qed
qed

lemma length_cumsum: "length (cumsum xs) = length xs"
  by (simp add: cumsum_def length_cumsum_acc)

lemma nth_cumsum_Cons:
  "i \<le> length ivs \<Longrightarrow> cumsum (t # ivs) ! i = t + sum_list (take i ivs)"
  using nth_cumsum_acc [of i "t # ivs" 0] by (simp add: cumsum_def)

lemma mode_intervals_cases:
  assumes "map_of MODE_INTERVALS mode = Some ivs"
  shows "ivs \<in> {[2, 2, 1, 2, 2, 2], [2, 1, 2, 2, 1, 2], [2, 1, 2, 2, 2, 1],
                [1, 2, 2, 2, 1, 2], [2, 2, 2, 1, 2, 2], [2, 2, 1, 2, 2, 1],
                [1, 2, 2, 1, 2, 2], [2, 1, 2, 2, 1, 3], [1, 3, 1, 2, 1, 2]}"
  using assms unfolding MODE_INTERVALS_def
  by (simp split: if_splits)

lemma mode_intervals_length:
  "map_of MODE_INTERVALS mode = Some ivs \<Longrightarrow> length ivs = 6"
  by (drule mode_intervals_cases) auto

text \<open>
  C7. For every tonic pitch class whose running sums numpy can hold in 64 bits
  (\<open>- 2 ^ 63 \<le> tonic_pc\<close> and \<open>tonic_pc + 11 < 2 ^ 63\<close>) and every mode of the fixed table
  of nine modes, \<open>get_scale_pcs\<close> returns exactly seven entries; entry \<open>i\<close> is the tonic
  plus the first \<open>i\<close> of the mode's six interval steps, reduced modulo 12 (so it lies in
  0..11), and the first entry is the tonic modulo 12.
\<close>

theorem get_scale_pcs_seven:
  assumes "map_of MODE_INTERVALS mode = Some ivs"
    and "- (2 ^ 63) \<le> tonic_pc" and "tonic_pc + 11 < 2 ^ 63"
  shows "length MODE_INTERVALS = 9 \<and> length ivs = 6 \<and>
         (\<exists>s. get_scale_pcs tonic_pc mode = Inr s \<and> length s = 7 \<and>
              s ! 0 = tonic_pc mod 12 \<and>
              (\<forall>i<7. s ! i = (tonic_pc + sum_list (take i ivs)) mod 12 \<and>
                      0 \<le> s ! i \<and> s ! i < 12))"
proof -
  have len: "length ivs = 6"
    using assms(1) by (rule mode_intervals_length)
  define s where "s = map (\<lambda>x. x mod 12) (cumsum (tonic_pc # ivs))"
  have ret: "get_scale_pcs tonic_pc mode = Inr s"
    using assms(1) by (simp add: get_scale_pcs_def dict_get_def s_def)
  have ls: "length s = 7"
    by (simp add: s_def length_cumsum len)
  have nth: "s ! i = (tonic_pc + sum_list (take i ivs)) mod 12" if "i < 7" for i
  proof -
    from that len have "i \<le> length ivs" by simp
    from nth_cumsum_Cons [OF this] that show ?thesis
      by (simp add: s_def length_cumsum len)
  qed
  have first: "s ! 0 = tonic_pc mod 12"
    using nth [of 0] by simp
  have "length MODE_INTERVALS = 9"
    by (simp add: MODE_INTERVALS_def)
  with len ret ls first nth show ?thesis
    by auto
qed

text \<open>The statement at the tonic 14 in the dorian mode.\<close>

theorem get_scale_pcs_seven_witness:
  "map_of MODE_INTERVALS ''dorian'' = Some [2, 1, 2, 2, 2, 1] \<and>
   - (2 ^ 63) \<le> (14 :: int) \<and> (14 :: int) + 11 < 2 ^ 63 \<and>
   get_scale_pcs 14 ''dorian'' = Inr [2, 4, 5, 7, 9, 11, 0]"
proof -
  have h: "map_of MODE_INTERVALS ''dorian'' = Some [2, 1, 2, 2, 2, 1]"
    by (simp add: MODE_INTERVALS_def)
  have lo: "- (2 ^ 63) \<le> (14 :: int)"
    by simp
  have hi: "(14 :: int) + 11 < 2 ^ 63"
    by simp
  have "get_scale_pcs 14 ''dorian'' = Inr [2, 4, 5, 7, 9, 11, 0]"
    by (simp add: get_scale_pcs_def dict_get_def h cumsum_def)
  with h lo hi get_scale_pcs_seven [OF h lo hi] show ?thesis
    by simp
qed

section \<open>Properties of the token parser\<close>

lemma degree_char_not_newline: "is_degree_char c \<Longrightarrow> c \<noteq> CHR 0x0A"
  by (auto simp: is_degree_char_def)

lemma degree_char_not_accidental: "is_degree_char c \<Longrightarrow> \<not> is_accidental_char c"
  by (auto simp: is_degree_char_def is_accidental_char_def)

lemma match_extension_append:
  assumes "CHR 0x0A \<notin> set a"
  shows "match_extension (a @ s) = map_option ((@) a) (match_extension s)"
proof -
  let ?P = "\<lambda>c. c \<noteq> CHR 0x0A"
  have all: "\<And>x. x \<in> set a \<Longrightarrow> ?P x"
    using assms by auto
  have tw: "takeWhile ?P (a @ s) = a @ takeWhile ?P s"
    using all by (rule takeWhile_append2)
  have dw: "dropWhile ?P (a @ s) = dropWhile ?P s"
    using all by (rule dropWhile_append2)
  define d where "d = dropWhile ?P s"
  define t where "t = takeWhile ?P s"
  have "match_extension (a @ s) = (if d = [] \<or> d = [CHR 0x0A] then Some (a @ t) else None)"
    unfolding match_extension_def Let_def tw dw d_def t_def ..
  moreover have "match_extension s = (if d = [] \<or> d = [CHR 0x0A] then Some t else None)"
    unfolding match_extension_def Let_def d_def t_def ..
  ultimately show ?thesis
    by (cases "d = [] \<or> d = [CHR 0x0A]") simp_all
qed

lemma match_extension_plain: "CHR 0x0A \<notin> set s \<Longrightarrow> match_extension s = Some s"
  using match_extension_append [of s "[]"] by (simp add: match_extension_def)

lemma match_extension_newline: "match_extension [CHR 0x0A] = Some []"
  by (simp add: match_extension_def)

lemma match_extension_Some_iff:
  "match_extension s = Some e \<longleftrightarrow> CHR 0x0A \<notin> set e \<and> (s = e \<or> s = e @ [CHR 0x0A])"
proof
  assume m: "match_extension s = Some e"
  let ?P = "\<lambda>c. c \<noteq> CHR 0x0A"
  define d where "d = dropWhile ?P s"
  from m have e: "e = takeWhile ?P s" and r: "d = [] \<or> d = [CHR 0x0A]"
    unfolding match_extension_def Let_def d_def by (simp_all split: if_splits)
  have "\<And>x. x \<in> set e \<Longrightarrow> x \<noteq> CHR 0x0A"
    unfolding e by (drule set_takeWhileD) simp
  then have "CHR 0x0A \<notin> set e"
    by blast
  moreover have "s = e @ d"
    unfolding e d_def by simp
  ultimately show "CHR 0x0A \<notin> set e \<and> (s = e \<or> s = e @ [CHR 0x0A])"
    using r by auto
next
  assume a: "CHR 0x0A \<notin> set e \<and> (s = e \<or> s = e @ [CHR 0x0A])"
  then have n: "CHR 0x0A \<notin> set e" by simp
  from a consider "s = e" | "s = e @ [CHR 0x0A]" by blast
  then show "match_extension s = Some e"
  proof cases
    case 1
    with match_extension_plain [OF n] show ?thesis by simp
  next
    case 2
    with match_extension_append [OF n, of "[CHR 0x0A]"] match_extension_newline
    show ?thesis by simp
  qed
qed

lemma match_degree_step:
  assumes "1 \<le> k" "k \<le> length (c # cs)" "list_all is_degree_char (take k (c # cs))"
  shows "match_extension (drop k (c # cs)) = None \<longleftrightarrow> match_extension cs = None"
proof -
  obtain j where k: "k = Suc j"
    using assms(1) by (cases k) auto
  have "set (take j cs) \<subseteq> set (take k (c # cs))"
    by (auto simp: k)
  with assms(3) have "CHR 0x0A \<notin> set (take j cs)"
    using degree_char_not_newline by (auto simp: list_all_iff)
  from match_extension_append [OF this, of "drop j cs"]
  show ?thesis by (simp add: k)
qed

lemma match_degree_None:
  "\<forall>k\<in>set ks. 1 \<le> k \<Longrightarrow> match_extension cs = None \<Longrightarrow> match_degree ks (c # cs) = None"
proof (induction ks)
  case Nil
  then show ?case by simp
next
  case (Cons k ks)
  then show ?case
    using match_degree_step [of k c cs] by (auto split: option.splits)
qed

lemma match_degree_not_None:
  "\<forall>k\<in>set ks. 1 \<le> k \<Longrightarrow> 1 \<in> set ks \<Longrightarrow> is_degree_char c \<Longrightarrow>
   match_extension cs \<noteq> None \<Longrightarrow> match_degree ks (c # cs) \<noteq> None"
proof (induction ks)
  case Nil
  then show ?case by simp
next
  case (Cons k ks)
  show ?case
  proof (cases "k \<le> length (c # cs) \<and> list_all is_degree_char (take k (c # cs))")
    case True
    with Cons.prems match_degree_step [of k c cs] show ?thesis
      by (auto split: option.splits)
  next
    case False
    with Cons.prems have "k \<noteq> 1" by auto
    with Cons False show ?thesis by auto
  qed
qed

lemma match_degree_no_degree:
  "\<not> is_degree_char c \<Longrightarrow> \<forall>k\<in>set ks. 1 \<le> k \<Longrightarrow> match_degree ks (c # cs) = None"
proof (induction ks)
  case Nil
  then show ?case by simp
next
  case (Cons k ks)
  then obtain j where "k = Suc j" by (cases k) auto
  with Cons show ?case by simp
qed

lemma match_degree_321_None_iff:
  "match_degree degree_repeats s = None \<longleftrightarrow>
   \<not> (\<exists>c cs. s = c # cs \<and> is_degree_char c \<and> match_extension cs \<noteq> None)"
proof (cases s)
  case Nil
  then show ?thesis by (simp add: degree_repeats_def)
next
  case (Cons c cs)
  have ks: "\<forall>k\<in>set degree_repeats. 1 \<le> k" by (simp add: degree_repeats_def)
  have one: "1 \<in> set degree_repeats" by (simp add: degree_repeats_def)
  show ?thesis
  proof (cases "is_degree_char c")
    case False
    from match_degree_no_degree [OF False ks, of cs] False Cons show ?thesis
      by (simp del: match_degree.simps)
  next
    case True
    show ?thesis
    proof (cases "match_extension cs = None")
      case n: True
      from match_degree_None [OF ks n, of c] n Cons show ?thesis
        by (simp del: match_degree.simps)
    next
      case n: False
      from match_degree_not_None [OF ks one True n] True n Cons show ?thesis
        by (simp del: match_degree.simps)
    qed
  qed
qed

lemma match_degree_exact:
  assumes "deg \<noteq> []" "length deg \<le> 3" "list_all is_degree_char deg"
    and "CHR 0x0A \<notin> set ext"
    and "length deg = 3 \<or> ext = [] \<or> \<not> is_degree_char (hd ext)"
  shows "match_degree degree_repeats (deg @ ext) = Some (deg, ext)"
proof -
  from assms(1,2) consider
      a where "deg = [a]"
    | a b where "deg = [a, b]"
    | a b c where "deg = [a, b, c]"
    by (cases deg; cases "tl deg"; cases "tl (tl deg)"; cases "tl (tl (tl deg))") auto
  then show ?thesis
  proof cases
    case 1
    with assms show ?thesis
      by (cases ext) (simp_all add: match_extension_plain degree_repeats_def)
  next
    case 2
    with assms show ?thesis
      by (cases ext) (simp_all add: match_extension_plain degree_repeats_def)
  next
    case 3
    with assms show ?thesis
      by (simp add: match_extension_plain degree_repeats_def)
  qed
qed

lemma parse_rn_no_accidental:
  assumes "match_degree degree_repeats rn = Some (deg, ext)" "\<not> is_accidental_char (hd rn)"
  shows "parse_rn rn = Inr ([], deg, ext)"
  using assms by (cases rn) (simp_all add: parse_rn_def)

lemma parse_rn_with_accidental:
  assumes "match_degree degree_repeats cs = Some (deg, ext)" "is_accidental_char c"
  shows "parse_rn (c # cs) = Inr ([c], deg, ext)"
  using assms by (simp add: parse_rn_def)

lemma parse_rn_error_iff:
  "parse_rn rn = Inl ValueError \<longleftrightarrow>
     match_degree degree_repeats rn = None \<and>
     \<not> (\<exists>c cs. rn = c # cs \<and> is_accidental_char c \<and> match_degree degree_repeats cs \<noteq> None)"
  unfolding parse_rn_def
  by (cases rn) (auto simp del: match_degree.simps split: option.splits)

lemma parse_rn_only_ValueError: "parse_rn rn = Inl e \<Longrightarrow> e = ValueError"
  unfolding parse_rn_def
  by (cases rn) (auto simp del: match_degree.simps split: option.splits if_splits)

lemma degree_grammar_iff:
  "match_degree degree_repeats s \<noteq> None \<longleftrightarrow>
     (\<exists>deg ext fin. s = deg @ ext @ fin \<and> deg \<noteq> [] \<and> length deg \<le> 3 \<and>
        list_all is_degree_char deg \<and> CHR 0x0A \<notin> set ext \<and> (fin = [] \<or> fin = [CHR 0x0A]))"
proof
  assume "match_degree degree_repeats s \<noteq> None"
  then obtain c cs e where s: "s = c # cs" and c: "is_degree_char c"
    and e: "match_extension cs = Some e"
    using match_degree_321_None_iff [of s] by (auto simp del: match_degree.simps)
  from e have n: "CHR 0x0A \<notin> set e" and cs: "cs = e \<or> cs = e @ [CHR 0x0A]"
    by (simp_all add: match_extension_Some_iff)
  from cs obtain fin where "cs = e @ fin" "fin = [] \<or> fin = [CHR 0x0A]"
    by auto
  with s c n have "s = [c] @ e @ fin \<and> [c] \<noteq> [] \<and> length [c] \<le> 3 \<and>
      list_all is_degree_char [c] \<and> CHR 0x0A \<notin> set e \<and> (fin = [] \<or> fin = [CHR 0x0A])"
    by simp
  then show "\<exists>deg ext fin. s = deg @ ext @ fin \<and> deg \<noteq> [] \<and> length deg \<le> 3 \<and>
        list_all is_degree_char deg \<and> CHR 0x0A \<notin> set ext \<and> (fin = [] \<or> fin = [CHR 0x0A])"
    by blast
next
  assume "\<exists>deg ext fin. s = deg @ ext @ fin \<and> deg \<noteq> [] \<and> length deg \<le> 3 \<and>
        list_all is_degree_char deg \<and> CHR 0x0A \<notin> set ext \<and> (fin = [] \<or> fin = [CHR 0x0A])"
  then obtain deg ext fin where s: "s = deg @ ext @ fin" and d: "deg \<noteq> []"
    and ad: "list_all is_degree_char deg" and n: "CHR 0x0A \<notin> set ext"
    and f: "fin = [] \<or> fin = [CHR 0x0A]"
    by blast
  from d obtain c ds where deg: "deg = c # ds"
    by (cases deg) auto
  with ad have c: "is_degree_char c" and ds: "list_all is_degree_char ds"
    by simp_all
  from ds have "CHR 0x0A \<notin> set ds"
    using degree_char_not_newline by (auto simp: list_all_iff)
  with n have n': "CHR 0x0A \<notin> set (ds @ ext)"
    by simp
  from f have "ds @ ext @ fin = ds @ ext \<or> ds @ ext @ fin = (ds @ ext) @ [CHR 0x0A]"
    by auto
  with n' have "match_extension (ds @ ext @ fin) = Some (ds @ ext)"
    by (simp only: match_extension_Some_iff) simp
  with c s deg show "match_degree degree_repeats s \<noteq> None"
    using match_degree_321_None_iff [of s] by (auto simp del: match_degree.simps)
qed

lemma match_degree_sound:
  "match_degree ks s = Some (d, e) \<Longrightarrow>
     \<exists>k\<in>set ks. k \<le> length s \<and> d = take k s \<and> list_all is_degree_char (take k s) \<and>
        match_extension (drop k s) = Some e"
  by (induction ks) (auto split: if_splits option.splits)

lemma match_degree_first:
  assumes "match_degree ks s = Some (d, e)" "sorted_wrt (\<ge>) ks" "k' \<in> set ks"
    and "k' \<le> length s" "list_all is_degree_char (take k' s)"
    and "match_extension (drop k' s) \<noteq> None"
  shows "k' \<le> length d"
  using assms
proof (induction ks)
  case Nil
  then show ?case by simp
next
  case (Cons k ks)
  show ?case
  proof (cases "k \<le> length s \<and> list_all is_degree_char (take k s) \<and>
                match_extension (drop k s) \<noteq> None")
    case True
    with Cons.prems(1) have "d = take k s"
      by auto
    with True have "length d = k"
      by simp
    moreover from Cons.prems(2,3) have "k' \<le> k"
      by auto
    ultimately show ?thesis
      by simp
  next
    case False
    with Cons.prems(1) have m: "match_degree ks s = Some (d, e)"
      by (auto split: if_splits option.splits)
    from False Cons.prems(4-6) have "k' \<noteq> k"
      by auto
    with Cons.prems(3) have "k' \<in> set ks"
      by simp
    moreover from Cons.prems(2) have "sorted_wrt (\<ge>) ks"
      by simp
    ultimately show ?thesis
      using Cons.IH m Cons.prems(4-6) by blast
  qed
qed

lemma match_degree_result:
  assumes "match_degree degree_repeats s = Some (d, e)"
  shows "\<exists>fin. s = d @ e @ fin \<and> (fin = [] \<or> fin = [CHR 0x0A]) \<and>
           d \<noteq> [] \<and> length d \<le> 3 \<and> list_all is_degree_char d \<and> CHR 0x0A \<notin> set e \<and>
           (length d = 3 \<or> e = [] \<or> \<not> is_degree_char (hd e))"
proof -
  from match_degree_sound [OF assms] obtain k where k: "k \<in> set degree_repeats"
    and kl: "k \<le> length s" and d: "d = take k s" and ad: "list_all is_degree_char (take k s)"
    and me: "match_extension (drop k s) = Some e"
    by blast
  from k have k13: "1 \<le> k" "k \<le> 3"
    by (auto simp: degree_repeats_def)
  from kl d have ld: "length d = k"
    by simp
  from me have n: "CHR 0x0A \<notin> set e" and dr: "drop k s = e \<or> drop k s = e @ [CHR 0x0A]"
    by (simp_all add: match_extension_Some_iff)
  from dr obtain fin where fin: "drop k s = e @ fin" "fin = [] \<or> fin = [CHR 0x0A]"
    by auto
  have s: "s = d @ e @ fin"
    using append_take_drop_id [of k s] d fin(1) by simp
  have greedy: "length d = 3 \<or> e = [] \<or> \<not> is_degree_char (hd e)"
  proof (rule ccontr)
    assume "\<not> ?thesis"
    then have k3: "k < 3" and e: "e \<noteq> []" and he: "is_degree_char (hd e)"
      using ld k13 by auto
    from e obtain x xs where ex: "e = x # xs"
      by (cases e) auto
    have s': "s = d @ x # (xs @ fin)"
      using s ex by simp
    have tk: "take (Suc k) s = d @ [x]"
      unfolding s' using ld by simp
    have dk: "drop (Suc k) s = xs @ fin"
      unfolding s' using ld by simp
    have 1: "Suc k \<in> set degree_repeats"
      using k13 k3 by (auto simp: degree_repeats_def)
    have 2: "Suc k \<le> length s"
      unfolding s' using ld by simp
    have 3: "list_all is_degree_char (take (Suc k) s)"
      unfolding tk using ad d he ex by simp
    from n ex have "CHR 0x0A \<notin> set xs"
      by simp
    with fin(2) have "match_extension (xs @ fin) = Some xs"
      by (auto simp: match_extension_Some_iff)
    then have 4: "match_extension (drop (Suc k) s) \<noteq> None"
      unfolding dk by simp
    have "sorted_wrt (\<ge>) degree_repeats"
      by (simp add: degree_repeats_def)
    from match_degree_first [OF assms this 1 2 3 4] ld show False
      by simp
  qed
  from k13 ld have "d \<noteq> []" "length d \<le> 3"
    by auto
  moreover from ad d have "list_all is_degree_char d"
    by simp
  ultimately have "s = d @ e @ fin \<and> (fin = [] \<or> fin = [CHR 0x0A]) \<and>
           d \<noteq> [] \<and> length d \<le> 3 \<and> list_all is_degree_char d \<and> CHR 0x0A \<notin> set e \<and>
           (length d = 3 \<or> e = [] \<or> \<not> is_degree_char (hd e))"
    using s fin(2) n greedy by simp
  then show ?thesis
    by (intro exI [where x = fin])
qed

lemma parse_rn_Inr_cases:
  assumes "parse_rn rn = Inr (acc, deg, ext)"
  shows "(acc = [] \<and> match_degree degree_repeats rn = Some (deg, ext)) \<or>
         (\<exists>c cs. rn = c # cs \<and> is_accidental_char c \<and> acc = [c] \<and>
                 match_degree degree_repeats cs = Some (deg, ext))"
  using assms unfolding parse_rn_def
  by (cases rn) (auto simp del: match_degree.simps split: option.splits if_splits)

lemma parse_rn_result:
  assumes "parse_rn rn = Inr (acc, deg, ext)"
  shows "\<exists>fin. rn = acc @ deg @ ext @ fin \<and> (fin = [] \<or> fin = [CHR 0x0A]) \<and>
           (acc = [] \<or> acc = ''#'' \<or> acc = ''b'') \<and>
           deg \<noteq> [] \<and> length deg \<le> 3 \<and> list_all is_degree_char deg \<and>
           CHR 0x0A \<notin> set ext \<and>
           (length deg = 3 \<or> ext = [] \<or> \<not> is_degree_char (hd ext))"
proof -
  from parse_rn_Inr_cases [OF assms] show ?thesis
  proof
    assume a: "acc = [] \<and> match_degree degree_repeats rn = Some (deg, ext)"
    then have "match_degree degree_repeats rn = Some (deg, ext)" ..
    from match_degree_result [OF this] obtain fin where
      "rn = deg @ ext @ fin \<and> (fin = [] \<or> fin = [CHR 0x0A]) \<and>
           deg \<noteq> [] \<and> length deg \<le> 3 \<and> list_all is_degree_char deg \<and>
           CHR 0x0A \<notin> set ext \<and>
           (length deg = 3 \<or> ext = [] \<or> \<not> is_degree_char (hd ext))"
      ..
    with a have "rn = acc @ deg @ ext @ fin \<and> (fin = [] \<or> fin = [CHR 0x0A]) \<and>
           (acc = [] \<or> acc = ''#'' \<or> acc = ''b'') \<and>
           deg \<noteq> [] \<and> length deg \<le> 3 \<and> list_all is_degree_char deg \<and>
           CHR 0x0A \<notin> set ext \<and>
           (length deg = 3 \<or> ext = [] \<or> \<not> is_degree_char (hd ext))"
      by simp
    then show ?thesis
      by (intro exI [where x = fin])
  next
    assume "\<exists>c cs. rn = c # cs \<and> is_accidental_char c \<and> acc = [c] \<and>
                 match_degree degree_repeats cs = Some (deg, ext)"
    then obtain c cs where rn: "rn = c # cs" and c: "is_accidental_char c" and acc: "acc = [c]"
      and m: "match_degree degree_repeats cs = Some (deg, ext)"
      by blast
    from c acc have a: "acc = ''#'' \<or> acc = ''b''"
      by (auto simp: is_accidental_char_def)
    from match_degree_result [OF m] obtain fin where
      "cs = deg @ ext @ fin \<and> (fin = [] \<or> fin = [CHR 0x0A]) \<and>
           deg \<noteq> [] \<and> length deg \<le> 3 \<and> list_all is_degree_char deg \<and>
           CHR 0x0A \<notin> set ext \<and>
           (length deg = 3 \<or> ext = [] \<or> \<not> is_degree_char (hd ext))"
      ..
    with rn acc a have "rn = acc @ deg @ ext @ fin \<and> (fin = [] \<or> fin = [CHR 0x0A]) \<and>
           (acc = [] \<or> acc = ''#'' \<or> acc = ''b'') \<and>
           deg \<noteq> [] \<and> length deg \<le> 3 \<and> list_all is_degree_char deg \<and>
           CHR 0x0A \<notin> set ext \<and>
           (length deg = 3 \<or> ext = [] \<or> \<not> is_degree_char (hd ext))"
      by simp
    then show ?thesis
      by (intro exI [where x = fin])
  qed
qed

text \<open>
  C3, as the code has it. \<open>parse_rn\<close> raises \<open>ValueError\<close> exactly for the tokens that do
  not consist of an optional single accidental \<open>#\<close> or \<open>b\<close>, one to three letters among
  \<open>I\<close>, \<open>V\<close>, \<open>i\<close>, \<open>v\<close> in any mix of upper and lower case, and a trailing extension
  without a line break (one final line break apart); it raises nothing else; and
  \<open>parse_rn('X7')\<close> raises. The pattern puts no condition on the case of the letters:
  whenever \<open>parse_rn\<close> succeeds, the token is the returned accidental, degree and
  extension one after the other, in the token's own spelling, followed by at most one
  final line break, and the degree is the longest run of up to three letters among
  \<open>I\<close>, \<open>V\<close>, \<open>i\<close>, \<open>v\<close> after the accidental.
\<close>

theorem parse_rn_fails_iff:
  "(parse_rn rn = Inl ValueError) =
     (\<not> (\<exists>acc deg ext fin. rn = acc @ deg @ ext @ fin \<and>
           (acc = [] \<or> acc = ''#'' \<or> acc = ''b'') \<and>
           deg \<noteq> [] \<and> length deg \<le> 3 \<and> list_all is_degree_char deg \<and>
           CHR 0x0A \<notin> set ext \<and> (fin = [] \<or> fin = [CHR 0x0A]))) \<and>
   parse_rn rn \<noteq> Inl KeyError \<and> parse_rn rn \<noteq> Inl IndexError \<and>
   parse_rn rn \<noteq> Inl AssertionError \<and>
   parse_rn ''X7'' = Inl ValueError \<and>
   (\<forall>acc deg ext. parse_rn rn = Inr (acc, deg, ext) \<longrightarrow>
      (\<exists>fin. rn = acc @ deg @ ext @ fin \<and> (fin = [] \<or> fin = [CHR 0x0A]) \<and>
         (acc = [] \<or> acc = ''#'' \<or> acc = ''b'') \<and>
         deg \<noteq> [] \<and> length deg \<le> 3 \<and> list_all is_degree_char deg \<and>
         CHR 0x0A \<notin> set ext \<and>
         (length deg = 3 \<or> ext = [] \<or> \<not> is_degree_char (hd ext))))"
proof -
  let ?G = "\<lambda>s. \<exists>deg ext fin. s = deg @ ext @ fin \<and> deg \<noteq> [] \<and> length deg \<le> 3 \<and>
        list_all is_degree_char deg \<and> CHR 0x0A \<notin> set ext \<and> (fin = [] \<or> fin = [CHR 0x0A])"
  let ?R = "\<exists>acc deg ext fin. rn = acc @ deg @ ext @ fin \<and>
           (acc = [] \<or> acc = ''#'' \<or> acc = ''b'') \<and>
           deg \<noteq> [] \<and> length deg \<le> 3 \<and> list_all is_degree_char deg \<and>
           CHR 0x0A \<notin> set ext \<and> (fin = [] \<or> fin = [CHR 0x0A])"
  have split: "?R \<longleftrightarrow> ?G rn \<or> (\<exists>c cs. rn = c # cs \<and> is_accidental_char c \<and> ?G cs)"
  proof
    assume ?R
    then obtain acc deg ext fin where rn: "rn = acc @ deg @ ext @ fin"
      and acc: "acc = [] \<or> acc = ''#'' \<or> acc = ''b''"
      and rest: "deg \<noteq> [] \<and> length deg \<le> 3 \<and> list_all is_degree_char deg \<and>
           CHR 0x0A \<notin> set ext \<and> (fin = [] \<or> fin = [CHR 0x0A])"
      by blast
    show "?G rn \<or> (\<exists>c cs. rn = c # cs \<and> is_accidental_char c \<and> ?G cs)"
    proof (cases "acc = []")
      case True
      with rn rest have "?G rn" by auto
      then show ?thesis ..
    next
      case False
      with acc obtain c where c: "acc = [c]" "is_accidental_char c"
        by (auto simp: is_accidental_char_def)
      with rn have "rn = c # (deg @ ext @ fin)" by simp
      moreover from rest have "?G (deg @ ext @ fin)" by blast
      ultimately show ?thesis using c(2) by blast
    qed
  next
    assume "?G rn \<or> (\<exists>c cs. rn = c # cs \<and> is_accidental_char c \<and> ?G cs)"
    then show ?R
    proof
      assume "?G rn"
      then obtain deg ext fin where "rn = [] @ deg @ ext @ fin \<and>
           deg \<noteq> [] \<and> length deg \<le> 3 \<and> list_all is_degree_char deg \<and>
           CHR 0x0A \<notin> set ext \<and> (fin = [] \<or> fin = [CHR 0x0A])"
        by auto
      then show ?R by blast
    next
      assume "\<exists>c cs. rn = c # cs \<and> is_accidental_char c \<and> ?G cs"
      then obtain c deg ext fin where "rn = [c] @ deg @ ext @ fin \<and>
           ([c] = ''#'' \<or> [c] = ''b'') \<and>
           deg \<noteq> [] \<and> length deg \<le> 3 \<and> list_all is_degree_char deg \<and>
           CHR 0x0A \<notin> set ext \<and> (fin = [] \<or> fin = [CHR 0x0A])"
        by (auto simp: is_accidental_char_def)
      then show ?R by blast
    qed
  qed
  let ?M = "\<lambda>s. match_degree degree_repeats s \<noteq> None"
  have e1: "parse_rn rn = Inl ValueError \<longleftrightarrow>
      \<not> (?M rn \<or> (\<exists>c cs. rn = c # cs \<and> is_accidental_char c \<and> ?M cs))"
    by (simp only: parse_rn_error_iff de_Morgan_disj not_not)
  have e2: "?R \<longleftrightarrow> ?M rn \<or> (\<exists>c cs. rn = c # cs \<and> is_accidental_char c \<and> ?M cs)"
    by (simp only: split degree_grammar_iff)
  have "parse_rn rn = Inl ValueError \<longleftrightarrow> \<not> ?R"
    by (simp only: e1 e2)
  moreover have "parse_rn rn \<noteq> Inl KeyError" "parse_rn rn \<noteq> Inl IndexError"
    "parse_rn rn \<noteq> Inl AssertionError"
    using parse_rn_only_ValueError [of rn] by auto
  moreover have "parse_rn ''X7'' = Inl ValueError"
    by (simp add: parse_rn_def degree_repeats_def is_accidental_char_def is_degree_char_def)
  moreover have "\<forall>acc deg ext. parse_rn rn = Inr (acc, deg, ext) \<longrightarrow>
      (\<exists>fin. rn = acc @ deg @ ext @ fin \<and> (fin = [] \<or> fin = [CHR 0x0A]) \<and>
         (acc = [] \<or> acc = ''#'' \<or> acc = ''b'') \<and>
         deg \<noteq> [] \<and> length deg \<le> 3 \<and> list_all is_degree_char deg \<and>
         CHR 0x0A \<notin> set ext \<and>
         (length deg = 3 \<or> ext = [] \<or> \<not> is_degree_char (hd ext)))"
    using parse_rn_result [of rn] by (intro allI impI)
  ultimately show ?thesis
    by (simp only: simp_thms)
qed

text \<open>The statement at the token \<open>bIv7\<close>, which is parsed with its own letters.\<close>

theorem parse_rn_fails_iff_witness:
  "parse_rn ''bIv7'' = Inr (''b'', ''Iv'', ''7'') \<and>
   parse_rn ''bIv7'' \<noteq> Inl ValueError \<and>
   (\<exists>fin. ''bIv7'' = ''b'' @ ''Iv'' @ ''7'' @ fin \<and> (fin = [] \<or> fin = [CHR 0x0A]) \<and>
      list_all is_degree_char ''Iv'' \<and> CHR 0x0A \<notin> set ''7'')"
proof -
  have p: "parse_rn ''bIv7'' = Inr (''b'', ''Iv'', ''7'')"
    by (simp add: parse_rn_def degree_repeats_def is_accidental_char_def is_degree_char_def
        match_extension_def)
  from parse_rn_fails_iff [of "''bIv7''"] have
    "\<forall>acc deg ext. parse_rn ''bIv7'' = Inr (acc, deg, ext) \<longrightarrow>
      (\<exists>fin. ''bIv7'' = acc @ deg @ ext @ fin \<and> (fin = [] \<or> fin = [CHR 0x0A]) \<and>
         (acc = [] \<or> acc = ''#'' \<or> acc = ''b'') \<and>
         deg \<noteq> [] \<and> length deg \<le> 3 \<and> list_all is_degree_char deg \<and>
         CHR 0x0A \<notin> set ext \<and>
         (length deg = 3 \<or> ext = [] \<or> \<not> is_degree_char (hd ext)))"
    by (elim conjE)
  with p obtain fin where
    "''bIv7'' = ''b'' @ ''Iv'' @ ''7'' @ fin \<and> (fin = [] \<or> fin = [CHR 0x0A]) \<and>
         (''b'' = [] \<or> ''b'' = ''#'' \<or> ''b'' = ''b'') \<and>
         ''Iv'' \<noteq> [] \<and> length ''Iv'' \<le> 3 \<and> list_all is_degree_char ''Iv'' \<and>
         CHR 0x0A \<notin> set ''7'' \<and>
         (length ''Iv'' = 3 \<or> ''7'' = [] \<or> \<not> is_degree_char (hd ''7''))"
    by blast
  then have "''bIv7'' = ''b'' @ ''Iv'' @ ''7'' @ fin \<and> (fin = [] \<or> fin = [CHR 0x0A]) \<and>
      list_all is_degree_char ''Iv'' \<and> CHR 0x0A \<notin> set ''7''"
    by (elim conjE) (intro conjI)
  then have "\<exists>fin. ''bIv7'' = ''b'' @ ''Iv'' @ ''7'' @ fin \<and> (fin = [] \<or> fin = [CHR 0x0A]) \<and>
      list_all is_degree_char ''Iv'' \<and> CHR 0x0A \<notin> set ''7''"
    by (intro exI [where x = fin])
  with p show ?thesis
    by simp
qed

text \<open>
  C3 as stated fails: the token \<open>Iv\<close>, whose degree letters mix upper and lower case, is
  parsed, with \<open>Iv\<close> as its degree.
\<close>

theorem parse_rn_mixed_case_counterexample:
  "parse_rn ''Iv'' = Inr ([], ''Iv'', [])"
  by (simp add: parse_rn_def degree_repeats_def is_accidental_char_def is_degree_char_def match_extension_def)

lemma parse_rn_two_non_degree:
  assumes "\<not> is_degree_char c" "\<not> is_degree_char d"
  shows "parse_rn (c # d # s) = Inl ValueError"
proof -
  have ks: "\<forall>k\<in>set degree_repeats. 1 \<le> k"
    by (simp add: degree_repeats_def)
  have 1: "match_degree degree_repeats (c # d # s) = None"
    using assms(1) ks by (rule match_degree_no_degree)
  have 2: "match_degree degree_repeats (d # s) = None"
    using assms(2) ks by (rule match_degree_no_degree)
  show ?thesis
    by (simp add: parse_rn_def 1 2 del: match_degree.simps)
qed

text \<open>
  C4, as the code has it. For the accidentals the pattern knows (none, \<open>b\<close>, \<open>#\<close>)
  followed by one to three degree letters and an extension without a line break that
  cannot be read as more degree letters (there are three letters already, or the
  extension is empty, or it starts with another character), \<open>parse_rn\<close> succeeds and
  returns that accidental, the degree letters and the extension. After the
  two-character accidentals \<open>bb\<close> and \<open>##\<close> of \<open>ACCIDENTAL_MAP\<close>, with the same degree
  letters and extension, it raises \<open>ValueError\<close>.
\<close>

theorem parse_rn_accidental:
  assumes "acc = [] \<or> acc = ''#'' \<or> acc = ''b''"
    and "deg \<noteq> []" "length deg \<le> 3" "list_all is_degree_char deg"
    and "CHR 0x0A \<notin> set ext"
    and "length deg = 3 \<or> ext = [] \<or> \<not> is_degree_char (hd ext)"
  shows "parse_rn (acc @ deg @ ext) = Inr (acc, deg, ext) \<and>
         parse_rn (''bb'' @ deg @ ext) = Inl ValueError \<and>
         parse_rn (''##'' @ deg @ ext) = Inl ValueError"
proof -
  have m: "match_degree degree_repeats (deg @ ext) = Some (deg, ext)"
    using assms(2-6) by (rule match_degree_exact)
  from assms(2) obtain a ds where deg: "deg = a # ds"
    by (cases deg) auto
  with assms(4) have "is_degree_char a"
    by simp
  then have na: "\<not> is_accidental_char (hd (deg @ ext))"
    using deg degree_char_not_accidental by simp
  have ok: "parse_rn (acc @ deg @ ext) = Inr (acc, deg, ext)"
  proof (cases "acc = []")
    case True
    with parse_rn_no_accidental [OF m na] show ?thesis by simp
  next
    case False
    with assms(1) obtain c where c: "acc = [c]" "is_accidental_char c"
      by (auto simp: is_accidental_char_def)
    with parse_rn_with_accidental [OF m c(2)] show ?thesis by simp
  qed
  have nb: "\<not> is_degree_char CHR ''b''" and ns: "\<not> is_degree_char CHR ''#''"
    by (simp_all add: is_degree_char_def)
  have "parse_rn (''bb'' @ deg @ ext) = Inl ValueError"
    using parse_rn_two_non_degree [OF nb nb, of "deg @ ext"] by simp
  moreover have "parse_rn (''##'' @ deg @ ext) = Inl ValueError"
    using parse_rn_two_non_degree [OF ns ns, of "deg @ ext"] by simp
  ultimately show ?thesis
    using ok by simp
qed

text \<open>The statement at the token \<open>bVII7\<close>.\<close>

theorem parse_rn_accidental_witness:
  "list_all is_degree_char ''VII'' \<and>
   parse_rn ''bVII7'' = Inr (''b'', ''VII'', ''7'') \<and>
   parse_rn ''bbVII7'' = Inl ValueError \<and>
   parse_rn ''##VII7'' = Inl ValueError"
  using parse_rn_accidental [of "''b''" "''VII''" "''7''"]
  by (simp add: is_degree_char_def)

text \<open>
  C4 as stated fails: the double flat \<open>bb\<close> before the degree letter \<open>I\<close> is not parsed.
\<close>

theorem parse_rn_double_flat_counterexample:
  "parse_rn ''bbI'' = Inl ValueError"
  by (simp add: parse_rn_def degree_repeats_def is_accidental_char_def is_degree_char_def)

section \<open>Properties of the pitch-class resolver: extra separators\<close>

lemma split_on_nonempty: "split_on sep s \<noteq> []"
  by (induction s) (auto split: list.splits)

lemma split_on_no_sep: "sep \<notin> set s \<Longrightarrow> split_on sep s = [s]"
  by (induction s) auto

lemma split_on_parts_no_sep: "p \<in> set (split_on sep s) \<Longrightarrow> sep \<notin> set p"
proof (induction s arbitrary: p)
  case Nil
  then show ?case by simp
next
  case (Cons c cs)
  show ?case
  proof (cases "c = sep")
    case True
    with Cons show ?thesis by auto
  next
    case False
    obtain q qs where q: "split_on sep cs = q # qs"
      using split_on_nonempty [of sep cs] by (cases "split_on sep cs") auto
    with Cons.prems False have "p = c # q \<or> p \<in> set qs"
      by simp
    then show ?thesis
    proof
      assume "p = c # q"
      moreover from Cons.IH [of q] q have "sep \<notin> set q" by simp
      ultimately show ?thesis using False by auto
    next
      assume "p \<in> set qs"
      with Cons.IH [of p] q show ?thesis by simp
    qed
  qed
qed

lemma replace_slash_o_no_slash: "CHR ''/'' \<notin> set s \<Longrightarrow> replace_slash_o s = s"
  by (induction s rule: replace_slash_o.induct) auto

lemma first_part_alone:
  "split_on CHR ''/'' (replace_slash_o (hd (split_on CHR ''/'' s))) = [hd (split_on CHR ''/'' s)]"
proof -
  let ?first = "hd (split_on CHR ''/'' s)"
  have "?first \<in> set (split_on CHR ''/'' s)"
    using split_on_nonempty [of "CHR ''/''" s] by simp
  then have n: "CHR ''/'' \<notin> set ?first"
    by (rule split_on_parts_no_sep)
  then show ?thesis
    by (simp add: replace_slash_o_no_slash split_on_no_sep)
qed

lemma length_split_on: "length (split_on sep s) = Suc (count_list s sep)"
  by (induction s) (auto split: list.splits simp: split_on_nonempty)

lemma index_of_bound: "index_of x ys = Some i \<Longrightarrow> i < length ys"
  by (induction ys arbitrary: i) (auto split: if_splits)

lemma chromatic_pc_range:
  assumes "chromatic_pc name = Inr v"
  shows "0 \<le> v \<and> v < 12"
proof -
  from assms obtain i where i: "index_of name CHROMATIC_SCALE = Some i" and v: "v = int i"
    unfolding chromatic_pc_def by (cases "index_of name CHROMATIC_SCALE") auto
  from index_of_bound [OF i] have "i < 12"
    by (simp add: CHROMATIC_SCALE_def)
  with v show ?thesis
    by simp
qed

lemma chromatic_pc_int64:
  "\<forall>name v. chromatic_pc name = Inr v \<longrightarrow> - (2 ^ 63) \<le> v \<and> v + 11 < 2 ^ 63"
proof (intro allI impI)
  fix name v
  assume "chromatic_pc name = Inr v"
  then have "0 \<le> v \<and> v < 12"
    by (rule chromatic_pc_range)
  then show "- (2 ^ 63) \<le> v \<and> v + 11 < 2 ^ 63"
    by simp
qed

text \<open>
  C10, as the code has it. For every token that, after \<open>/o\<close> has been rewritten to
  \<open>^o\<close>, contains two or more separators \<open>/\<close>, the extra parts cause no error and have
  no effect: \<open>get_rn_pitch_classes\<close> returns, or raises, exactly what it does for the
  part before the first separator alone, in the original scale; the same holds for the
  array \<open>pitch_classes\<close> it computes. Whether that is a result or an error is decided by
  the first part. The pitch classes \<open>get_note_pc\<close> returns are taken in the range in
  which the model's sums are numpy's.
\<close>

theorem extra_separators_ignored:
  assumes "2 \<le> count_list (replace_slash_o rn) CHR ''/''"
    and "\<forall>name v. note_pc name = Inr v \<longrightarrow> - (2 ^ 63) \<le> v \<and> v + 11 < 2 ^ 63"
  shows "rn_pitch_classes note_pc rn scale =
           rn_pitch_classes note_pc (hd (split_on CHR ''/'' (replace_slash_o rn))) scale \<and>
         get_rn_pitch_classes note_pc rn scale =
           get_rn_pitch_classes note_pc (hd (split_on CHR ''/'' (replace_slash_o rn))) scale"
proof -
  let ?parts = "split_on CHR ''/'' (replace_slash_o rn)"
  have one: "split_on CHR ''/'' (replace_slash_o (hd ?parts)) = [hd ?parts]"
    by (rule first_part_alone)
  from assms(1) have two: "length ?parts \<noteq> 2"
    by (simp add: length_split_on)
  have rp: "resolve_parts ks ?parts = resolve_parts ks [hd ?parts]" for ks
    unfolding resolve_parts_def Let_def using two by (simp add: secondary_key_scale_def)
  have "rn_pitch_classes note_pc rn scale = rn_pitch_classes note_pc (hd ?parts) scale"
    unfolding rn_pitch_classes_def one rp ..
  then show ?thesis
    by (simp add: get_rn_pitch_classes_def)
qed

lemma VVV_normal: "replace_slash_o ''V/V/V'' = ''V/V/V''"
  by code_simp

lemma VVV_first: "hd (split_on CHR ''/'' ''V/V/V'') = ''V''"
  by code_simp

lemma V_value: "get_rn_pitch_classes chromatic_pc ''V'' ''C major'' = Inr ''7-11-2''"
  by code_simp

text \<open>
  The statement at the token \<open>V/V/V\<close> in C major, which gives \<open>7-11-2\<close> as \<open>V\<close> does; the
  pitch classes of \<open>chromatic_pc\<close> are in the range (\<open>chromatic_pc_int64\<close>).
\<close>

theorem extra_separators_ignored_witness:
  "2 \<le> count_list (replace_slash_o ''V/V/V'') CHR ''/'' \<and>
   get_rn_pitch_classes chromatic_pc ''V/V/V'' ''C major'' = Inr ''7-11-2'' \<and>
   get_rn_pitch_classes chromatic_pc ''V/V/V'' ''C major'' =
     get_rn_pitch_classes chromatic_pc ''V'' ''C major''"
proof -
  have h: "2 \<le> count_list (replace_slash_o ''V/V/V'') CHR ''/''"
    by (simp add: VVV_normal)
  from extra_separators_ignored [OF h chromatic_pc_int64, of "''C major''"]
  have "get_rn_pitch_classes chromatic_pc ''V/V/V'' ''C major'' =
     get_rn_pitch_classes chromatic_pc ''V'' ''C major''"
    by (simp add: VVV_normal VVV_first)
  with h show ?thesis
    by (simp only: V_value simp_thms)
qed

text \<open>
  C10 as stated fails: a token with two separators can raise. \<open>X/V/V\<close> raises
  \<open>ValueError\<close>, as its first part \<open>X\<close> does alone.
\<close>

theorem malformed_primary_part_counterexample:
  "2 \<le> count_list (replace_slash_o ''X/V/V'') CHR ''/'' \<and>
   get_rn_pitch_classes chromatic_pc ''X/V/V'' ''C major'' = Inl ValueError"
  by code_simp

section \<open>Properties of the pitch-class resolver: secondary targets\<close>










lemma VV_scale: "split_ws ''C major'' = [''C'', ''major'']"
  by code_simp

lemma VV_parts: "split_on CHR ''/'' (replace_slash_o ''V/V'') = [''V'', ''V'']"
  by code_simp





lemma C_pc: "chromatic_pc ''C'' = Inr 0"
  by code_simp











section \<open>Properties of the pitch-class resolver: two chords in C major\<close>

lemma major_scale_C: "get_scale_pcs 0 ''major'' = Inr [0, 2, 4, 5, 7, 9, 11]"
  by code_simp

lemma I_parts: "split_on CHR ''/'' (replace_slash_o ''I'') = [''I'']"
  by code_simp

lemma I_resolved: "resolve_parts [0, 2, 4, 5, 7, 9, 11] [''I''] = Inr [0, 4, 7]"
  by code_simp

lemma VV_resolved: "resolve_parts [0, 2, 4, 5, 7, 9, 11] [''V'', ''V''] = Inr [2, 6, 9]"
  by code_simp

lemma I_joined: "join ''-'' [str_int 0, str_int 4, str_int 7] = ''0-4-7''"
  by code_simp

lemma VV_joined: "join ''-'' [str_int 2, str_int 6, str_int 9] = ''2-6-9''"
  by code_simp

text \<open>
  C5. In the scale \<open>C major\<close>, with \<open>get_note_pc('C') = 0\<close>, the token \<open>I\<close> resolves to the
  pitch classes 0, 4, 7 and the token \<open>V/V\<close> to 2, 6, 9: these are the values of the array
  \<open>pitch_classes\<close>, which \<open>get_rn_pitch_classes\<close> returns joined by \<open>-\<close>, as \<open>0-4-7\<close> and
  \<open>2-6-9\<close>.
\<close>

theorem tonic_and_applied_dominant_in_C_major:
  assumes "note_pc ''C'' = Inr 0"
  shows "rn_pitch_classes note_pc ''I'' ''C major'' = Inr [0, 4, 7] \<and>
         get_rn_pitch_classes note_pc ''I'' ''C major'' = Inr ''0-4-7'' \<and>
         rn_pitch_classes note_pc ''V/V'' ''C major'' = Inr [2, 6, 9] \<and>
         get_rn_pitch_classes note_pc ''V/V'' ''C major'' = Inr ''2-6-9''"
proof -
  have i: "rn_pitch_classes note_pc ''I'' ''C major'' = Inr [0, 4, 7]"
    unfolding rn_pitch_classes_def
    by (simp add: VV_scale assms major_scale_C I_parts I_resolved)
  have v: "rn_pitch_classes note_pc ''V/V'' ''C major'' = Inr [2, 6, 9]"
    unfolding rn_pitch_classes_def
    by (simp add: VV_scale assms major_scale_C VV_parts VV_resolved)
  show ?thesis
    unfolding get_rn_pitch_classes_def i v
    by (simp del: join.simps add: I_joined VV_joined)
qed

text \<open>The statement with the place in the chromatic scale as the pitch class of a note.\<close>

theorem tonic_and_applied_dominant_in_C_major_witness:
  "chromatic_pc ''C'' = Inr 0 \<and>
   get_rn_pitch_classes chromatic_pc ''I'' ''C major'' = Inr ''0-4-7'' \<and>
   get_rn_pitch_classes chromatic_pc ''V/V'' ''C major'' = Inr ''2-6-9''"
  using tonic_and_applied_dominant_in_C_major [where note_pc = chromatic_pc] C_pc by simp

section \<open>Properties of the windowing\<close>

lemma ncols_table: "is_table n T arr \<Longrightarrow> ncols arr = T"
  by (cases arr) (auto simp: is_table_def ncols_def)

lemma view_too_narrow:
  "ncols arr < snd window_shape \<Longrightarrow> view_as_windows arr window_shape step = Inl ValueError"
  by (simp add: view_as_windows_def)

lemma view_single_band:
  assumes "length arr = wr" "1 \<le> wr" "1 \<le> wc" "wc \<le> ncols arr" "1 \<le> sc"
  shows "(case view_as_windows arr (wr, wc) (wr, sc) of
            Inl e \<Rightarrow> Inl e
          | Inr windows \<Rightarrow> squeeze0 windows) =
         Inr (map (\<lambda>j. map (\<lambda>r. take wc (drop (j * sc) r)) arr)
                [0 ..< (ncols arr - wc) div sc + 1])"
proof -
  have "view_as_windows arr (wr, wc) (wr, sc) =
      Inr [map (\<lambda>j. window_at arr (0, j * sc) (wr, wc)) [0 ..< (ncols arr - wc) div sc + 1]]"
    using assms by (simp add: view_as_windows_def)
  moreover have "window_at arr (0, j * sc) (wr, wc) = map (\<lambda>r. take wc (drop (j * sc) r)) arr"
    for j
    using assms(1) by (simp add: window_at_def)
  ultimately show ?thesis
    by (simp add: squeeze0_def)
qed

lemma label_segments_windows:
  assumes "is_table (length ALL_TASKS) T labels"
  shows "label_segments labels =
           (if T < WINDOW_SIZE then Inl ValueError
            else Inr (map (\<lambda>j. map (\<lambda>r. take WINDOW_SIZE (drop (j * STEP_SIZE) r)) labels)
                       [0 ..< (T - WINDOW_SIZE) div STEP_SIZE + 1]))"
proof (cases "T < WINDOW_SIZE")
  case True
  with ncols_table [OF assms] have "ncols labels < snd (length ALL_TASKS, WINDOW_SIZE)"
    by simp
  from view_too_narrow [OF this] True show ?thesis
    by (simp add: label_segments_def)
next
  case False
  have len: "length labels = length ALL_TASKS" and pos: "1 \<le> length ALL_TASKS"
    using assms by (simp_all add: is_table_def)
  have w: "1 \<le> WINDOW_SIZE" and s: "1 \<le> STEP_SIZE"
    by (simp_all add: WINDOW_SIZE_def STEP_SIZE_def)
  from False ncols_table [OF assms] have wide: "WINDOW_SIZE \<le> ncols labels"
    by simp
  from view_single_band [OF len pos w wide s] False ncols_table [OF assms] show ?thesis
    by (simp add: label_segments_def)
qed

lemma chunkify_feature_windows:
  assumes "is_table feature_size T feature"
  shows "chunkify_feature feature feature_size =
           Inr (map (\<lambda>j. map (\<lambda>r. take WINDOW_SIZE
                                   (drop (j * STEP_SIZE) (r @ replicate (WINDOW_SIZE - T) 0)))
                            feature)
                  [0 ..< (max T WINDOW_SIZE - WINDOW_SIZE) div STEP_SIZE + 1])"
proof -
  define padded where "padded = map (\<lambda>r. r @ replicate (WINDOW_SIZE - T) 0) feature"
  have len: "length feature = feature_size" and pos: "1 \<le> feature_size"
    and rows: "list_all (\<lambda>r. length r = T) feature"
    using assms by (simp_all add: is_table_def)
  have nc: "ncols feature = T"
    using assms by (rule ncols_table)
  have feature': "(if ncols feature < WINDOW_SIZE
             then map (\<lambda>r. r @ replicate (WINDOW_SIZE - ncols feature) 0) feature
             else feature) = padded"
    by (simp add: nc padded_def)
  have "is_table feature_size (max T WINDOW_SIZE) padded"
    using len pos rows by (auto simp: is_table_def padded_def list_all_iff)
  then have ncp: "ncols padded = max T WINDOW_SIZE"
    by (rule ncols_table)
  have lenp: "length padded = feature_size"
    by (simp add: padded_def len)
  have w: "1 \<le> WINDOW_SIZE" and s: "1 \<le> STEP_SIZE"
    by (simp_all add: WINDOW_SIZE_def STEP_SIZE_def)
  have wide: "WINDOW_SIZE \<le> ncols padded"
    by (simp add: ncp)
  have "chunkify_feature feature feature_size =
      (case view_as_windows padded (feature_size, WINDOW_SIZE) (feature_size, STEP_SIZE) of
         Inl e \<Rightarrow> Inl e
       | Inr windows \<Rightarrow> squeeze0 windows)"
    unfolding chunkify_feature_def Let_def feature' ..
  also have "\<dots> = Inr (map (\<lambda>j. map (\<lambda>r. take WINDOW_SIZE (drop (j * STEP_SIZE) r)) padded)
                [0 ..< (ncols padded - WINDOW_SIZE) div STEP_SIZE + 1])"
    using lenp pos w wide s by (rule view_single_band)
  also have "\<dots> = Inr (map (\<lambda>j. map (\<lambda>r. take WINDOW_SIZE
                                   (drop (j * STEP_SIZE) (r @ replicate (WINDOW_SIZE - T) 0)))
                            feature)
                  [0 ..< (max T WINDOW_SIZE - WINDOW_SIZE) div STEP_SIZE + 1])"
    unfolding ncp
    unfolding padded_def map_map comp_def ..
  finally show ?thesis .
qed

lemma segment_counts_agree_from_256:
  assumes "is_table (length ALL_TASKS) T labels" "is_table feature_size T feature"
    and "WINDOW_SIZE \<le> T"
  shows "\<exists>ls fs. label_segments labels = Inr ls \<and> chunkify_feature feature feature_size = Inr fs \<and>
           length ls = (T - WINDOW_SIZE) div STEP_SIZE + 1 \<and> length fs = length ls"
proof -
  from assms(3) have m: "max T WINDOW_SIZE = T" and n: "\<not> T < WINDOW_SIZE"
    by simp_all
  show ?thesis
    unfolding label_segments_windows [OF assms(1)] chunkify_feature_windows [OF assms(2)] m
    using n by simp
qed





section \<open>Properties of the resampling\<close>

lemma py_slice_nonneg:
  assumes "0 \<le> x" "0 \<le> y"
  shows "py_slice r x y = take (nat y - nat x) (drop (nat x) r)"
proof (cases "nat x \<le> length r")
  case True
  with assms show ?thesis
    by (simp add: py_slice_def slice_bound_def min_def)
next
  case False
  with assms show ?thesis
    by (simp add: py_slice_def slice_bound_def min_def)
qed

lemma ncols_rows:
  assumes "feature \<noteq> []" "\<forall>r\<in>set feature. length r = F"
  shows "ncols feature = F"
  using assms by (cases feature) (simp_all add: ncols_def)

lemma resample_frame_value:
  assumes "feature \<noteq> []" "\<forall>r\<in>set feature. length r = F" "1 \<le> F" "0 \<le> x" "0 \<le> y"
  shows "resample_frame mean feature x y =
           Inr (map (\<lambda>r. if x = y then r ! nat (min x (int F - 1))
                          else mean (take (nat y - nat x) (drop (nat x) r))) feature)"
proof (cases "x = y")
  case True
  have nc: "ncols feature = F"
    using assms(1,2) by (rule ncols_rows)
  from assms(3,4) have "- int F \<le> min x (int F - 1)" "min x (int F - 1) < int F"
    "\<not> min x (int F - 1) < 0"
    by simp_all
  with True show ?thesis
    by (simp add: resample_frame_def column_def nc Let_def)
next
  case False
  with assms(4,5) show ?thesis
    by (simp add: resample_frame_def py_slice_nonneg)
qed

lemma resample_frames_value:
  assumes "feature \<noteq> []" "\<forall>r\<in>set feature. length r = F" "1 \<le> F" "\<forall>x\<in>set b. 0 \<le> x"
  shows "resample_frames mean feature b =
           Inr (map (\<lambda>(x, y). map (\<lambda>r. if x = y then r ! nat (min x (int F - 1))
                                         else mean (take (nat y - nat x) (drop (nat x) r)))
                                feature)
                  (zip b (tl b)))"
  using assms(4)
proof (induction b)
  case Nil
  show ?case by simp
next
  case (Cons x bs)
  show ?case
  proof (cases bs)
    case Nil
    then show ?thesis by simp
  next
    case (Cons y cs)
    from Cons.prems have x: "0 \<le> x" and rest: "\<forall>z\<in>set bs. 0 \<le> z"
      by simp_all
    from rest Cons have y: "0 \<le> y"
      by simp
    note frame = resample_frame_value [OF assms(1-3) x y, of mean]
    from Cons.IH [OF rest] Cons frame show ?thesis
      by simp
  qed
qed

text \<open>
  C9, as the code has it. Take a frame matrix with at least one channel and
  \<open>num_frames \<ge> 1\<close> frames, and \<open>num_beats + 1\<close> boundaries, none of them negative, with
  \<open>num_beats \<ge> 1\<close>. Then \<open>resample_feature\<close> returns, and the table it builds before the
  optional normalisation has one row per channel and \<open>num_beats\<close> columns. Column \<open>i\<close> is
  the frame at index \<open>min(boundary[i], num_frames - 1)\<close> when \<open>boundary[i]\<close> and
  \<open>boundary[i+1]\<close> are equal; otherwise its entry in a channel is \<open>np.mean\<close> of that
  channel's entries in the frames \<open>boundary[i]\<close> up to, not including, \<open>boundary[i+1]\<close>, as
  far as the matrix has them. The normalisation, when there is one, is applied to that
  table. \<open>np.mean\<close> is the parameter \<open>mean\<close>, so the statement holds for the
  floating-point mean.
\<close>

theorem resample_feature_columns:
  assumes "feature \<noteq> []" "\<forall>r\<in>set feature. length r = num_frames" "1 \<le> num_frames"
    and "length beats_to_frames = Suc num_beats" "1 \<le> num_beats"
    and "\<forall>x\<in>set beats_to_frames. 0 \<le> x"
  shows "\<exists>tbl. resample_feature mean feature beats_to_frames normalization =
             Inr (case normalization of None \<Rightarrow> tbl | Some f \<Rightarrow> f tbl) \<and>
           length tbl = length feature \<and>
           (\<forall>c<length feature. length (tbl ! c) = num_beats \<and>
              (\<forall>i<num_beats. tbl ! c ! i =
                 (if beats_to_frames ! i = beats_to_frames ! Suc i
                  then feature ! c ! nat (min (beats_to_frames ! i) (int num_frames - 1))
                  else mean (take (nat (beats_to_frames ! Suc i) - nat (beats_to_frames ! i))
                               (drop (nat (beats_to_frames ! i)) (feature ! c))))))"
proof -
  let ?b = beats_to_frames
  define g where "g = (\<lambda>x y (r :: 'a list). if x = y then r ! nat (min x (int num_frames - 1))
                          else mean (take (nat y - nat x) (drop (nat x) r)))"
  define frames where "frames = map (\<lambda>(x, y). map (g x y) feature) (zip ?b (tl ?b))"
  define tbl where "tbl = map (\<lambda>c. map (\<lambda>frame. frame ! c) frames) [0 ..< length feature]"
  have fr: "resample_frames mean feature ?b = Inr frames"
    unfolding frames_def g_def using assms(1,2,3,6) by (rule resample_frames_value)
  have lf: "length frames = num_beats"
    by (simp add: frames_def assms(4))
  have nth_frame: "frames ! i = map (g (?b ! i) (?b ! Suc i)) feature" if "i < num_beats" for i
    using that assms(4) by (simp add: frames_def nth_tl)
  from lf assms(5) have ne: "frames \<noteq> []"
    by auto
  have "hd frames = frames ! 0"
    using ne by (simp add: hd_conv_nth)
  with nth_frame [of 0] assms(5) have lh: "length (hd frames) = length feature"
    by simp
  have st: "stack_columns frames = Inr tbl"
    by (simp add: stack_columns_def ne lh tbl_def)
  have ret: "resample_feature mean feature ?b normalization =
      Inr (case normalization of None \<Rightarrow> tbl | Some f \<Rightarrow> f tbl)"
    by (cases normalization) (simp_all add: resample_feature_def fr st lf assms(4))
  have lt: "length tbl = length feature"
    by (simp add: tbl_def)
  have cells: "length (tbl ! c) = num_beats \<and>
      (\<forall>i<num_beats. tbl ! c ! i = g (?b ! i) (?b ! Suc i) (feature ! c))"
    if "c < length feature" for c
    using that by (simp add: tbl_def lf nth_frame)
  have "resample_feature mean feature ?b normalization =
             Inr (case normalization of None \<Rightarrow> tbl | Some f \<Rightarrow> f tbl) \<and>
           length tbl = length feature \<and>
           (\<forall>c<length feature. length (tbl ! c) = num_beats \<and>
              (\<forall>i<num_beats. tbl ! c ! i =
                 (if ?b ! i = ?b ! Suc i
                  then feature ! c ! nat (min (?b ! i) (int num_frames - 1))
                  else mean (take (nat (?b ! Suc i) - nat (?b ! i))
                               (drop (nat (?b ! i)) (feature ! c))))))"
    using ret lt cells by (simp add: g_def)
  then show ?thesis
    by (intro exI [where x = tbl])
qed

lemma example_value:
  "resample_feature sum_list [[1, 2, 3, 4], [5, 6, 7, 8 :: int]] [0, 2, 2, 4] None =
     Inr [[3, 3, 7], [11, 7, 15]]"
  by code_simp

text \<open>
  The statement at two channels of four frames and the boundaries 0, 2, 2, 4, with the
  sum in the place of the mean.
\<close>

theorem resample_feature_columns_witness:
  "[[1, 2, 3, 4], [5, 6, 7, 8 :: int]] \<noteq> [] \<and>
   list_all (\<lambda>r. length r = 4) [[1, 2, 3, 4], [5, 6, 7, 8 :: int]] \<and>
   length [0, 2, 2, 4 :: int] = Suc 3 \<and>
   list_all (\<lambda>x. 0 \<le> x) [0, 2, 2, 4 :: int] \<and>
   resample_feature sum_list [[1, 2, 3, 4], [5, 6, 7, 8 :: int]] [0, 2, 2, 4] None =
     Inr [[3, 3, 7], [11, 7, 15]]"
proof -
  have 1: "[[1, 2, 3, 4], [5, 6, 7, 8 :: int]] \<noteq> []"
    by simp
  have 2: "\<forall>r\<in>set [[1, 2, 3, 4], [5, 6, 7, 8 :: int]]. length r = 4"
    by simp
  have 3: "1 \<le> (4 :: nat)"
    by simp
  have 4: "length [0, 2, 2, 4 :: int] = Suc 3"
    by simp
  have 5: "1 \<le> (3 :: nat)"
    by simp
  have 6: "\<forall>x\<in>set [0, 2, 2, 4 :: int]. 0 \<le> x"
    by simp
  from resample_feature_columns [OF 1 2 3 4 5 6, of sum_list None]
  have "\<exists>tbl. resample_feature sum_list [[1, 2, 3, 4], [5, 6, 7, 8 :: int]] [0, 2, 2, 4] None =
      Inr tbl \<and> length tbl = 2"
    by auto
  moreover have "list_all (\<lambda>r. length r = 4) [[1, 2, 3, 4], [5, 6, 7, 8 :: int]]"
    "list_all (\<lambda>x. 0 \<le> x) [0, 2, 2, 4 :: int]"
    by simp_all
  ultimately show ?thesis
    using 1 4 by (simp only: example_value simp_thms)
qed

lemma single_boundary: "resample_feature sum_list [[1, 2, 3, 4 :: int]] [0] None = Inl ValueError"
  by code_simp

lemma no_frames: "resample_feature sum_list [[] :: int list] [0, 0] None = Inl IndexError"
  by code_simp

lemma negative_boundaries:
  "resample_feature sum_list [[1, 2, 3, 4 :: int]] [- 3, - 1] None = Inr [[5]]"
  by code_simp

text \<open>
  C9 as stated fails outside those bounds. With a single boundary, which is
  \<open>num_beats = 0\<close>, there is no frame to stack and \<open>np.stack\<close> raises \<open>ValueError\<close>; with a
  matrix of no frames and two equal boundaries the index \<open>min(0, - 1)\<close> raises
  \<open>IndexError\<close>; with the negative boundaries \<open>- 3\<close> and \<open>- 1\<close> the slice counts from the
  end and takes the frames 1 and 2 of four.
\<close>

theorem degenerate_resampling_counterexample:
  "resample_feature sum_list [[1, 2, 3, 4 :: int]] [0] None = Inl ValueError \<and>
   resample_feature sum_list [[] :: int list] [0, 0] None = Inl IndexError \<and>
   resample_feature sum_list [[1, 2, 3, 4 :: int]] [- 3, - 1] None = Inr [[5]]"
  by (simp only: single_boundary no_frames negative_boundaries simp_thms)

end
